theory Spec2Isabelle
  imports Main "HOL-Library.Multiset" "HOL-Library.Sublist"
begin

section \<open>Data model\<close>

text \<open>
  Both analysis scripts work on the list of dictionaries built by \<open>parse_log\<close>: one
  dictionary per accepted line with the keys \<open>'op'\<close>, \<open>'offset'\<close>, \<open>'value'\<close> and
  \<open>'length'\<close>. The operation is kept as the string found in the line; the three numbers
  are Python integers (unbounded, possibly negative).
\<close>

record entry =
  e_op :: string
  e_offset :: int
  e_value :: int
  e_length :: int

section \<open>scripty.py: value-change timeline and 0x0/0x4 pairing\<close>

text \<open>The dictionaries appended to \<open>timeline\<close>, \<open>all_changes[offset]\<close> and
  \<open>pairs_0x0_0x4\<close>. A Python value that may be \<open>None\<close> is an \<open>option\<close>.\<close>

record timeline_entry =
  tl_index :: nat
  tl_op :: string
  tl_offset :: int
  tl_value :: int
  tl_old_value :: "int option"
  tl_changed :: bool

record change =
  ch_index :: nat
  ch_old :: "int option"
  ch_new :: int

record pair =
  p_index :: nat
  reg_select :: int
  data_value :: int
  data_changed :: bool

text \<open>The local variables of \<open>analyze_log\<close>. \<open>current_state\<close> maps an offset to a value
  that is \<open>None\<close> until the first write, so a key that is present can still hold
  \<open>None\<close>. \<open>last_0x0_write\<close> is \<open>None\<close> or the dictionary \<open>{'index': i, 'value': v}\<close>.\<close>

record log_state =
  current_state :: "int \<rightharpoonup> int option"
  all_changes :: "int \<rightharpoonup> change list"
  pairs_0x0_0x4 :: "pair list"
  last_0x0_write :: "(nat \<times> int) option"
  timeline :: "timeline_entry list"

definition log_init :: log_state where
  "log_init = \<lparr>current_state = Map.empty, all_changes = Map.empty, pairs_0x0_0x4 = [],
     last_0x0_write = None, timeline = []\<rparr>"

text \<open>One iteration of the \<open>for i, entry in enumerate(entries)\<close> loop of \<open>analyze_log\<close>,
  statement by statement. After the initialisation both dictionaries hold the offset, so
  the later subscripts cannot raise \<open>KeyError\<close>.\<close>

definition log_step :: "nat \<Rightarrow> entry \<Rightarrow> log_state \<Rightarrow> log_state" where
  "log_step i entry s0 =
    (let offset = e_offset entry; v = e_value entry; opn = e_op entry;
         s1 = (if current_state s0 offset = None
               then s0\<lparr>current_state := (current_state s0)(offset \<mapsto> None),
                       all_changes := (all_changes s0)(offset \<mapsto> [])\<rparr>
               else s0);
         old_value = (case current_state s1 offset of Some ov \<Rightarrow> ov | None \<Rightarrow> None);
         value_changed = (if opn = ''Write'' then old_value \<noteq> Some v else False);
         s2 = s1\<lparr>timeline := timeline s1 @
                 [\<lparr>tl_index = i, tl_op = opn, tl_offset = offset, tl_value = v,
                   tl_old_value = old_value, tl_changed = value_changed\<rparr>]\<rparr>
     in if opn = ''Write'' then
          (let s3 = (if value_changed
                     then s2\<lparr>all_changes := (all_changes s2)(offset \<mapsto>
                            (case all_changes s2 offset of Some cs \<Rightarrow> cs | None \<Rightarrow> []) @
                            [\<lparr>ch_index = i, ch_old = old_value, ch_new = v\<rparr>])\<rparr>
                     else s2);
               s4 = s3\<lparr>current_state := (current_state s3)(offset \<mapsto> Some v)\<rparr>
           in if offset = 0 then s4\<lparr>last_0x0_write := Some (i, v)\<rparr>
              else if offset = 4 \<and> last_0x0_write s4 \<noteq> None
              then s4\<lparr>pairs_0x0_0x4 := pairs_0x0_0x4 s4 @
                        [\<lparr>p_index = i, reg_select = snd (the (last_0x0_write s4)),
                          data_value = v, data_changed = value_changed\<rparr>]\<rparr>
              else s4)
        else s2)"

fun log_loop :: "nat \<Rightarrow> entry list \<Rightarrow> log_state \<Rightarrow> log_state" where
  "log_loop i [] s = s"
| "log_loop i (entry # entries) s = log_loop (Suc i) entries (log_step i entry s)"

definition log_run :: "entry list \<Rightarrow> log_state" where
  "log_run entries = log_loop 0 entries log_init"

definition analyze_log ::
  "entry list \<Rightarrow> timeline_entry list \<times> (int \<rightharpoonup> change list) \<times> pair list \<times> (int \<rightharpoonup> int option)" where
  "analyze_log entries =
    (let s = log_run entries
     in (timeline s, all_changes s, pairs_0x0_0x4 s, current_state s))"

section \<open>scripty2.py: read-before-write and device-controlled registers\<close>

text \<open>The dictionaries appended to the four result lists. The key of a record is stored
  under \<open>'index'\<close> for an indexed register and under \<open>'offset'\<close> for a direct one; both
  are the field \<open>rbw_key\<close> (\<open>dc_key\<close>) here. \<open>'old_value'\<close> is a copy of
  \<open>state['last_read']\<close>, which the script initialises to \<open>None\<close> on a first write.\<close>

record rbw_record =
  rbw_key :: int
  rbw_value :: int
  rbw_line :: nat

record dc_record =
  dc_key :: int
  old_value :: "int option"
  new_value :: int
  dc_line :: nat

record reg_state =
  last_read :: "int option"
  write_since_read :: bool

record reg_analysis =
  current_index :: "int option"
  indexed_written :: "int set"
  direct_written :: "int set"
  read_before_write_indexed :: "rbw_record list"
  read_before_write_direct :: "rbw_record list"
  reported_indexed_rbw :: "int set"
  reported_direct_rbw :: "int set"
  indexed_state :: "int \<rightharpoonup> reg_state"
  direct_state :: "int \<rightharpoonup> reg_state"
  device_controlled_indexed :: "dc_record list"
  device_controlled_direct :: "dc_record list"

definition reg_init :: reg_analysis where
  "reg_init = \<lparr>current_index = None, indexed_written = {}, direct_written = {},
     read_before_write_indexed = [], read_before_write_direct = [],
     reported_indexed_rbw = {}, reported_direct_rbw = {},
     indexed_state = Map.empty, direct_state = Map.empty,
     device_controlled_indexed = [], device_controlled_direct = []\<rparr>"

text \<open>The branch for offset 0x4 when \<open>current_index\<close> is \<open>ci\<close>.\<close>

definition indexed_step :: "nat \<Rightarrow> int \<Rightarrow> string \<Rightarrow> int \<Rightarrow> reg_analysis \<Rightarrow> reg_analysis" where
  "indexed_step i ci opn v s =
    (if opn = ''Read'' then
       (let s1 = (if ci \<notin> indexed_written s \<and> ci \<notin> reported_indexed_rbw s
                  then s\<lparr>read_before_write_indexed := read_before_write_indexed s @
                            [\<lparr>rbw_key = ci, rbw_value = v, rbw_line = i\<rparr>],
                          reported_indexed_rbw := insert ci (reported_indexed_rbw s)\<rparr>
                  else s);
            s2 = (case indexed_state s1 ci of
                    None \<Rightarrow> s1
                  | Some st \<Rightarrow>
                      if \<not> write_since_read st \<and> last_read st \<noteq> Some v
                      then s1\<lparr>device_controlled_indexed := device_controlled_indexed s1 @
                                [\<lparr>dc_key = ci, old_value = last_read st, new_value = v,
                                  dc_line = i\<rparr>]\<rparr>
                      else s1)
        in s2\<lparr>indexed_state := (indexed_state s2)(ci \<mapsto>
                 \<lparr>last_read = Some v, write_since_read = False\<rparr>)\<rparr>)
     else if opn = ''Write'' then
       (let s1 = s\<lparr>indexed_written := insert ci (indexed_written s)\<rparr>
        in case indexed_state s1 ci of
             Some st \<Rightarrow> s1\<lparr>indexed_state := (indexed_state s1)(ci \<mapsto>
                           st\<lparr>write_since_read := True\<rparr>)\<rparr>
           | None \<Rightarrow> s1\<lparr>indexed_state := (indexed_state s1)(ci \<mapsto>
                         \<lparr>last_read = None, write_since_read = True\<rparr>)\<rparr>)
     else s)"

text \<open>The final \<open>else\<close> branch: every offset other than 0x0 and 0x4.\<close>

definition direct_step :: "nat \<Rightarrow> int \<Rightarrow> string \<Rightarrow> int \<Rightarrow> reg_analysis \<Rightarrow> reg_analysis" where
  "direct_step i offset opn v s =
    (if opn = ''Read'' then
       (let s1 = (if offset \<notin> direct_written s \<and> offset \<notin> reported_direct_rbw s
                  then s\<lparr>read_before_write_direct := read_before_write_direct s @
                            [\<lparr>rbw_key = offset, rbw_value = v, rbw_line = i\<rparr>],
                          reported_direct_rbw := insert offset (reported_direct_rbw s)\<rparr>
                  else s);
            s2 = (case direct_state s1 offset of
                    None \<Rightarrow> s1
                  | Some st \<Rightarrow>
                      if \<not> write_since_read st \<and> last_read st \<noteq> Some v
                      then s1\<lparr>device_controlled_direct := device_controlled_direct s1 @
                                [\<lparr>dc_key = offset, old_value = last_read st, new_value = v,
                                  dc_line = i\<rparr>]\<rparr>
                      else s1)
        in s2\<lparr>direct_state := (direct_state s2)(offset \<mapsto>
                 \<lparr>last_read = Some v, write_since_read = False\<rparr>)\<rparr>)
     else if opn = ''Write'' then
       (let s1 = s\<lparr>direct_written := insert offset (direct_written s)\<rparr>
        in case direct_state s1 offset of
             Some st \<Rightarrow> s1\<lparr>direct_state := (direct_state s1)(offset \<mapsto>
                           st\<lparr>write_since_read := True\<rparr>)\<rparr>
           | None \<Rightarrow> s1\<lparr>direct_state := (direct_state s1)(offset \<mapsto>
                         \<lparr>last_read = None, write_since_read = True\<rparr>)\<rparr>)
     else s)"

text \<open>One iteration of the loop of \<open>analyze_registers\<close>: the three-way split on the offset.\<close>

definition reg_step :: "nat \<Rightarrow> entry \<Rightarrow> reg_analysis \<Rightarrow> reg_analysis" where
  "reg_step i entry s =
    (let offset = e_offset entry; v = e_value entry; opn = e_op entry
     in if offset = 0 then
          (if opn = ''Write'' then s\<lparr>current_index := Some v\<rparr> else s)
        else if offset = 4 then
          (case current_index s of
             None \<Rightarrow> s
           | Some ci \<Rightarrow> indexed_step i ci opn v s)
        else direct_step i offset opn v s)"

fun reg_loop :: "nat \<Rightarrow> entry list \<Rightarrow> reg_analysis \<Rightarrow> reg_analysis" where
  "reg_loop i [] s = s"
| "reg_loop i (entry # entries) s = reg_loop (Suc i) entries (reg_step i entry s)"

definition reg_run :: "entry list \<Rightarrow> reg_analysis" where
  "reg_run entries = reg_loop 0 entries reg_init"

definition analyze_registers ::
  "entry list \<Rightarrow> rbw_record list \<times> rbw_record list \<times> dc_record list \<times> dc_record list" where
  "analyze_registers entries =
    (let s = reg_run entries
     in (read_before_write_indexed s, read_before_write_direct s,
         device_controlled_indexed s, device_controlled_direct s))"

text \<open>\<open>write_report\<close> prints the two read-before-write lists through
  \<open>sorted(rbw_indexed, key=lambda x: x['index'])\<close> and
  \<open>sorted(rbw_direct, key=lambda x: x['offset'])\<close>; Python's \<open>sorted\<close> is stable, as
  \<open>sort_key\<close> is.\<close>

definition report_rbw_order :: "rbw_record list \<Rightarrow> rbw_record list" where
  "report_rbw_order rbw = sort_key rbw_key rbw"

section \<open>parse_log (the same function in scripty.py and scripty2.py)\<close>

text \<open>
  A Python string is modelled as a \<open>string\<close> whose characters are the code points below
  256. Python's whitespace among them, as \<open>str.strip\<close> and \<open>str.split\<close> see it, is
  0x09 to 0x0D, 0x1C to 0x20, 0x85 and 0xA0.
\<close>

definition py_isspace :: "char \<Rightarrow> bool" where
  "py_isspace c =
    (let n = (of_char c :: nat)
     in (9 \<le> n \<and> n \<le> 13) \<or> (28 \<le> n \<and> n \<le> 32) \<or> n = 133 \<or> n = 160)"

definition py_strip :: "string \<Rightarrow> string" where
  "py_strip s = rev (dropWhile py_isspace (rev (dropWhile py_isspace s)))"

text \<open>\<open>s.split('\n')\<close>: the pieces between newlines, empty pieces kept.\<close>

fun split_nl :: "string \<Rightarrow> string list" where
  "split_nl [] = [[]]"
| "split_nl (c # cs) =
    (if c = CHR 0x0A then [] # split_nl cs
     else (case split_nl cs of [] \<Rightarrow> [[c]] | l # ls \<Rightarrow> (c # l) # ls))"

text \<open>\<open>s.split()\<close>: one left-to-right scan; \<open>cur\<close> is the field read so far.\<close>

fun split_ws :: "string \<Rightarrow> string \<Rightarrow> string list" where
  "split_ws cur [] = (if cur = [] then [] else [cur])"
| "split_ws cur (c # cs) =
    (if py_isspace c then (if cur = [] then split_ws [] cs else cur # split_ws [] cs)
     else split_ws (cur @ [c]) cs)"

definition py_split :: "string \<Rightarrow> string list" where
  "py_split s = split_ws [] s"

definition hexval :: "char \<Rightarrow> int option" where
  "hexval c =
    (let n = (of_char c :: int)
     in if 48 \<le> n \<and> n \<le> 57 then Some (n - 48)
        else if 97 \<le> n \<and> n \<le> 102 then Some (n - 87)
        else if 65 \<le> n \<and> n \<le> 70 then Some (n - 55)
        else None)"

text \<open>The digit loop of \<open>int(s, 16)\<close>: hexadecimal digits with single underscores between
  them; a doubled or trailing underscore, or any other character, is a \<open>ValueError\<close>
  (\<open>None\<close>). \<open>prev\<close> tells whether the previous character was an underscore.\<close>

fun hex_digits :: "bool \<Rightarrow> int \<Rightarrow> string \<Rightarrow> int option" where
  "hex_digits prev acc [] = (if prev then None else Some acc)"
| "hex_digits prev acc (c # cs) =
    (if c = CHR ''_'' then (if prev then None else hex_digits True acc cs)
     else (case hexval c of
             None \<Rightarrow> None
           | Some d \<Rightarrow> hex_digits False (16 * acc + d) cs))"

text \<open>\<open>int(tok, 16)\<close> for a field \<open>tok\<close> returned by \<open>split()\<close> (so without whitespace): an
  optional sign, an optional \<open>0x\<close> or \<open>0X\<close> that one underscore may follow, then the
  digits, which may not be empty nor start with an underscore.\<close>

definition py_int16 :: "string \<Rightarrow> int option" where
  "py_int16 tok =
    (let neg = (tok \<noteq> [] \<and> hd tok = CHR ''-'');
         s1 = (if tok \<noteq> [] \<and> (hd tok = CHR ''+'' \<or> hd tok = CHR ''-'') then tl tok else tok);
         s2 = (if prefix ''0x'' s1 \<or> prefix ''0X'' s1
               then (if prefix ''_'' (drop 2 s1) then drop 3 s1 else drop 2 s1)
               else s1)
     in if s2 = [] \<or> hd s2 = CHR ''_'' then None
        else map_option (\<lambda>n. if neg then - n else n) (hex_digits False 0 s2))"

text \<open>The body of the loop over the lines: \<open>None\<close> where the line is skipped by a
  \<open>continue\<close>, by the failed length test or by the \<open>except ValueError\<close>.\<close>

definition parse_line :: "string \<Rightarrow> entry option" where
  "parse_line line =
    (if prefix ''Operation'' line \<or> prefix ''----'' line \<or> py_strip line = [] then None
     else (let parts = py_split line
           in if length parts \<ge> 4 then
                (case py_int16 (parts ! 1) of
                   None \<Rightarrow> None
                 | Some offset \<Rightarrow>
                    (case py_int16 (parts ! 2) of
                       None \<Rightarrow> None
                     | Some v \<Rightarrow>
                        (case py_int16 (parts ! 3) of
                           None \<Rightarrow> None
                         | Some len \<Rightarrow>
                             Some \<lparr>e_op = parts ! 0, e_offset = offset, e_value = v,
                                   e_length = len\<rparr>)))
              else None))"

fun parse_loop :: "string list \<Rightarrow> entry list \<Rightarrow> entry list" where
  "parse_loop [] entries = entries"
| "parse_loop (line # lines) entries =
    parse_loop lines (case parse_line line of None \<Rightarrow> entries | Some e \<Rightarrow> entries @ [e])"

definition parse_log :: "string \<Rightarrow> entry list" where
  "parse_log log_text = parse_loop (split_nl (py_strip log_text)) []"

section \<open>Notions used to state the properties\<close>

text \<open>A trace entry with access width 4, for concrete traces.\<close>

definition ev :: "string \<Rightarrow> int \<Rightarrow> int \<Rightarrow> entry" where
  "ev opn offset v = \<lparr>e_op = opn, e_offset = offset, e_value = v, e_length = 4\<rparr>"

text \<open>The value of the last Write to \<open>offset\<close> in a trace, absent when the trace has none:
  the "current value" of the timeline view.\<close>

definition is_write_to :: "int \<Rightarrow> entry \<Rightarrow> bool" where
  "is_write_to offset e = (e_op e = ''Write'' \<and> e_offset e = offset)"

definition last_write_value :: "entry list \<Rightarrow> int \<Rightarrow> int option" where
  "last_write_value es offset =
    (let ws = filter (is_write_to offset) es
     in if ws = [] then None else Some (e_value (last ws)))"

text \<open>The Writes to \<open>offset\<close> whose value differs from the current value just before them,
  in trace order, each with its position, the current value before it and its own value.\<close>

definition expected_changes :: "entry list \<Rightarrow> int \<Rightarrow> change list" where
  "expected_changes es offset =
    map (\<lambda>i. \<lparr>ch_index = i, ch_old = last_write_value (take i es) offset,
              ch_new = e_value (es ! i)\<rparr>)
      (filter (\<lambda>i. is_write_to offset (es ! i) \<and>
                    last_write_value (take i es) offset \<noteq> Some (e_value (es ! i)))
         [0..<length es])"

text \<open>The value an indexed register holds according to the trace: the last value written
  to the data offset 0x4 while \<open>r\<close> was the value last written to the index offset 0x0.\<close>

definition keyed_current :: "entry list \<Rightarrow> int \<Rightarrow> int option" where
  "keyed_current es r =
    (let ws = filter (\<lambda>i. is_write_to 4 (es ! i) \<and> last_write_value (take i es) 0 = Some r)
                [0..<length es]
     in if ws = [] then None else Some (e_value (es ! last ws)))"

section \<open>Keys, reads and writes under the two addressing schemes\<close>

text \<open>The two addressing schemes. Under the direct scheme the key of an access is its
  offset, for every offset other than 0x0 and 0x4. Under the indexed scheme an access to
  the data offset 0x4 has as key the value most recently written to the index offset 0x0
  before it, and no key when there is no such Write.\<close>

datatype scheme = Direct | Indexed

fun key_at :: "scheme \<Rightarrow> entry list \<Rightarrow> nat \<Rightarrow> int option" where
  "key_at Direct es i =
    (if e_offset (es ! i) = 0 \<or> e_offset (es ! i) = 4 then None else Some (e_offset (es ! i)))"
| "key_at Indexed es i =
    (if e_offset (es ! i) = 4 then last_write_value (take i es) 0 else None)"

definition reads_key :: "scheme \<Rightarrow> entry list \<Rightarrow> nat \<Rightarrow> int \<Rightarrow> int \<Rightarrow> bool" where
  "reads_key sch es i k v =
    (i < length es \<and> e_op (es ! i) = ''Read'' \<and> key_at sch es i = Some k \<and> e_value (es ! i) = v)"

definition writes_key :: "scheme \<Rightarrow> entry list \<Rightarrow> nat \<Rightarrow> int \<Rightarrow> bool" where
  "writes_key sch es i k =
    (i < length es \<and> e_op (es ! i) = ''Write'' \<and> key_at sch es i = Some k)"

text \<open>Position \<open>i\<close> holds neither a Read nor a Write of key \<open>k\<close>.\<close>

definition untouched :: "scheme \<Rightarrow> entry list \<Rightarrow> nat \<Rightarrow> int \<Rightarrow> bool" where
  "untouched sch es i k = (\<not> writes_key sch es i k \<and> \<not> (\<exists>v. reads_key sch es i k v))"

fun rbw_records :: "scheme \<Rightarrow> entry list \<Rightarrow> rbw_record list" where
  "rbw_records Indexed es = fst (analyze_registers es)"
| "rbw_records Direct es = fst (snd (analyze_registers es))"

fun dc_records :: "scheme \<Rightarrow> entry list \<Rightarrow> dc_record list" where
  "dc_records Indexed es = fst (snd (snd (analyze_registers es)))"
| "dc_records Direct es = snd (snd (snd (analyze_registers es)))"

fun state_table :: "scheme \<Rightarrow> reg_analysis \<Rightarrow> (int \<rightharpoonup> reg_state)" where
  "state_table Indexed s = indexed_state s"
| "state_table Direct s = direct_state s"

subsection \<open>One keyed machine for both schemes\<close>

text \<open>\<open>indexed_step\<close> and \<open>direct_step\<close> are the same code on two sets of variables. The
  machine below is that code on one set; the proofs show that each scheme is this machine
  run on the scheme's view of the trace, and reason about the machine once.\<close>

record kstate =
  k_written :: "int set"
  k_reported :: "int set"
  k_rbw :: "rbw_record list"
  k_table :: "int \<rightharpoonup> reg_state"
  k_dc :: "dc_record list"

definition kinit :: kstate where
  "kinit = \<lparr>k_written = {}, k_reported = {}, k_rbw = [], k_table = Map.empty, k_dc = []\<rparr>"

type_synonym kev = "(string \<times> int \<times> int) option"

fun kstep :: "nat \<Rightarrow> kev \<Rightarrow> kstate \<Rightarrow> kstate" where
  "kstep i None s = s"
| "kstep i (Some (opn, k, v)) s =
    (if opn = ''Read'' then
       (let s1 = (if k \<notin> k_written s \<and> k \<notin> k_reported s
                  then s\<lparr>k_rbw := k_rbw s @ [\<lparr>rbw_key = k, rbw_value = v, rbw_line = i\<rparr>],
                          k_reported := insert k (k_reported s)\<rparr>
                  else s);
            s2 = (case k_table s1 k of
                    None \<Rightarrow> s1
                  | Some st \<Rightarrow>
                      if \<not> write_since_read st \<and> last_read st \<noteq> Some v
                      then s1\<lparr>k_dc := k_dc s1 @
                                [\<lparr>dc_key = k, old_value = last_read st, new_value = v,
                                  dc_line = i\<rparr>]\<rparr>
                      else s1)
        in s2\<lparr>k_table := (k_table s2)(k \<mapsto> \<lparr>last_read = Some v, write_since_read = False\<rparr>)\<rparr>)
     else if opn = ''Write'' then
       (let s1 = s\<lparr>k_written := insert k (k_written s)\<rparr>
        in case k_table s1 k of
             Some st \<Rightarrow> s1\<lparr>k_table := (k_table s1)(k \<mapsto> st\<lparr>write_since_read := True\<rparr>)\<rparr>
           | None \<Rightarrow> s1\<lparr>k_table := (k_table s1)(k \<mapsto>
                         \<lparr>last_read = None, write_since_read = True\<rparr>)\<rparr>)
     else s)"

fun kloop :: "nat \<Rightarrow> kev list \<Rightarrow> kstate \<Rightarrow> kstate" where
  "kloop i [] s = s"
| "kloop i (x # xs) s = kloop (Suc i) xs (kstep i x s)"

definition krun :: "kev list \<Rightarrow> kstate" where
  "krun xs = kloop 0 xs kinit"

fun kproj :: "scheme \<Rightarrow> reg_analysis \<Rightarrow> kstate" where
  "kproj Indexed s = \<lparr>k_written = indexed_written s, k_reported = reported_indexed_rbw s,
     k_rbw = read_before_write_indexed s, k_table = indexed_state s,
     k_dc = device_controlled_indexed s\<rparr>"
| "kproj Direct s = \<lparr>k_written = direct_written s, k_reported = reported_direct_rbw s,
     k_rbw = read_before_write_direct s, k_table = direct_state s,
     k_dc = device_controlled_direct s\<rparr>"

definition access :: "scheme \<Rightarrow> entry list \<Rightarrow> nat \<Rightarrow> kev" where
  "access sch es i =
    (case key_at sch es i of None \<Rightarrow> None | Some k \<Rightarrow> Some (e_op (es ! i), k, e_value (es ! i)))"

definition kview :: "scheme \<Rightarrow> entry list \<Rightarrow> kev list" where
  "kview sch es = map (access sch es) [0..<length es]"

definition kR :: "kev list \<Rightarrow> nat \<Rightarrow> int \<Rightarrow> int \<Rightarrow> bool" where
  "kR xs i k v = (i < length xs \<and> xs ! i = Some (''Read'', k, v))"

definition kW :: "kev list \<Rightarrow> nat \<Rightarrow> int \<Rightarrow> bool" where
  "kW xs i k = (i < length xs \<and> (\<exists>v. xs ! i = Some (''Write'', k, v)))"

definition kU :: "kev list \<Rightarrow> nat \<Rightarrow> int \<Rightarrow> bool" where
  "kU xs i k = (\<not> kW xs i k \<and> \<not> (\<exists>v. kR xs i k v))"

text \<open>What one trace entry is to each scheme: nothing, or an operation on a key.\<close>

definition dacc :: "entry \<Rightarrow> kev" where
  "dacc e = (if e_offset e = 0 \<or> e_offset e = 4 then None
             else Some (e_op e, e_offset e, e_value e))"

definition iacc :: "int option \<Rightarrow> entry \<Rightarrow> kev" where
  "iacc ci e = (if e_offset e = 4
                then (case ci of None \<Rightarrow> None | Some c \<Rightarrow> Some (e_op e, c, e_value e))
                else None)"

text \<open>Whether an event reads or writes key \<open>k\<close>, and the statement that a record is
  a device-controlled change of the view \<open>xs\<close>.\<close>

definition ktouch :: "kev \<Rightarrow> int \<Rightarrow> bool" where
  "ktouch x k = (\<exists>v. x = Some (''Write'', k, v) \<or> x = Some (''Read'', k, v))"

definition kD :: "kev list \<Rightarrow> dc_record \<Rightarrow> bool" where
  "kD xs r = (\<exists>i v1. old_value r = Some v1 \<and> i < dc_line r \<and> kR xs i (dc_key r) v1 \<and>
      kR xs (dc_line r) (dc_key r) (new_value r) \<and> v1 \<noteq> new_value r \<and>
      (\<forall>m. i < m \<and> m < dc_line r \<longrightarrow> kU xs m (dc_key r)))"

text \<open>The first Read and the first Write of a key under a scheme.\<close>

definition first_read_at :: "scheme \<Rightarrow> entry list \<Rightarrow> nat \<Rightarrow> int \<Rightarrow> int \<Rightarrow> bool" where
  "first_read_at sch es i k v =
    (reads_key sch es i k v \<and> (\<forall>j<i. \<forall>w. \<not> reads_key sch es j k w))"

definition first_write_at :: "scheme \<Rightarrow> entry list \<Rightarrow> nat \<Rightarrow> int \<Rightarrow> bool" where
  "first_write_at sch es i k =
    (writes_key sch es i k \<and> (\<forall>j<i. \<not> writes_key sch es j k))"

section \<open>The timeline pass\<close>

lemma log_loop_snoc:
  "log_loop i (es @ [e]) s = log_step (i + length es) e (log_loop i es s)"
  by (induction es arbitrary: i s) simp_all

lemma log_run_snoc: "log_run (es @ [e]) = log_step (length es) e (log_run es)"
  by (simp add: log_run_def log_loop_snoc)

lemma log_run_Nil: "log_run [] = log_init"
  by (simp add: log_run_def)

lemma timeline_log_step:
  "timeline (log_step i e s) = timeline s @
     [\<lparr>tl_index = i, tl_op = e_op e, tl_offset = e_offset e, tl_value = e_value e,
       tl_old_value = (case current_state s (e_offset e) of None \<Rightarrow> None | Some ov \<Rightarrow> ov),
       tl_changed = (e_op e = ''Write'' \<and>
          (case current_state s (e_offset e) of None \<Rightarrow> None | Some ov \<Rightarrow> ov) \<noteq> Some (e_value e))\<rparr>]"
  by (cases "e_op e = ''Write''"; cases "current_state s (e_offset e)";
      cases "e_offset e = 0"; cases "e_offset e = 4"; cases "last_0x0_write s";
      simp add: log_step_def Let_def)

lemma timeline_log_run:
  "map (\<lambda>t. (tl_index t, tl_op t, tl_offset t, tl_value t)) (timeline (log_run es)) =
   map (\<lambda>i. (i, e_op (es ! i), e_offset (es ! i), e_value (es ! i))) [0..<length es]"
proof (induction es rule: rev_induct)
  case Nil
  show ?case by (simp add: log_run_Nil log_init_def)
next
  case (snoc e es)
  show ?case using snoc.IH
    by (simp add: log_run_snoc timeline_log_step nth_append)
qed

text \<open>Claim C8: the timeline returned by \<open>analyze_log\<close> has exactly one entry per input
  event: as many entries as events, the entry at position \<open>i\<close> carries index \<open>i\<close> (so
  the indices ascend) and the operation, offset and value of the \<open>i\<close>-th event.\<close>

theorem timeline_one_entry_per_event:
  "length (fst (analyze_log es)) = length es \<and>
   map tl_index (fst (analyze_log es)) = [0..<length es] \<and>
   map (\<lambda>t. (tl_op t, tl_offset t, tl_value t)) (fst (analyze_log es)) =
     map (\<lambda>e. (e_op e, e_offset e, e_value e)) es"
proof -
  let ?tl = "timeline (log_run es)"
  have a: "fst (analyze_log es) = ?tl" by (simp add: analyze_log_def Let_def)
  have "map fst (map (\<lambda>t. (tl_index t, tl_op t, tl_offset t, tl_value t)) ?tl) = 
        map fst (map (\<lambda>i. (i, e_op (es ! i), e_offset (es ! i), e_value (es ! i))) [0..<length es])"
    by (simp only: timeline_log_run)
  then have i: "map tl_index ?tl = [0..<length es]" by (simp add: comp_def)
  then have l: "length ?tl = length es" by (metis length_map length_upt minus_nat.diff_0)
  have "map snd (map (\<lambda>t. (tl_index t, tl_op t, tl_offset t, tl_value t)) ?tl) = 
        map snd (map (\<lambda>i. (i, e_op (es ! i), e_offset (es ! i), e_value (es ! i))) [0..<length es])"
    by (simp only: timeline_log_run)
  then have "map (\<lambda>t. (tl_op t, tl_offset t, tl_value t)) ?tl =
     map (\<lambda>i. (e_op (es ! i), e_offset (es ! i), e_value (es ! i))) [0..<length es]"
    by (simp add: comp_def)
  also have "\<dots> = map (\<lambda>e. (e_op e, e_offset e, e_value e)) (map (\<lambda>i. es ! i) [0..<length es])"
    by (simp add: comp_def)
  also have "\<dots> = map (\<lambda>e. (e_op e, e_offset e, e_value e)) es"
    by (simp add: map_nth)
  finally show ?thesis using a i l by simp
qed

text \<open>Claim C5: on the Writes 0x0 <- 5, 0x4 <- 10, 0x4 <- 10, 0x0 <- 6, 0x4 <- 20 (of any
  access widths) \<open>analyze_log\<close> returns exactly three pair records, in this order:
  (reg_select 5, data 10, changed), (reg_select 5, data 10, unchanged),
  (reg_select 6, data 20, changed).\<close>

theorem pairing_five_writes:
  "fst (snd (snd (analyze_log
      [\<lparr>e_op = ''Write'', e_offset = 0, e_value = 5, e_length = l1\<rparr>,
       \<lparr>e_op = ''Write'', e_offset = 4, e_value = 10, e_length = l2\<rparr>,
       \<lparr>e_op = ''Write'', e_offset = 4, e_value = 10, e_length = l3\<rparr>,
       \<lparr>e_op = ''Write'', e_offset = 0, e_value = 6, e_length = l4\<rparr>,
       \<lparr>e_op = ''Write'', e_offset = 4, e_value = 20, e_length = l5\<rparr>]))) =
     [\<lparr>p_index = 1, reg_select = 5, data_value = 10, data_changed = True\<rparr>,
      \<lparr>p_index = 2, reg_select = 5, data_value = 10, data_changed = False\<rparr>,
      \<lparr>p_index = 4, reg_select = 6, data_value = 20, data_changed = True\<rparr>]"
  by (simp add: analyze_log_def log_run_def log_init_def log_step_def Let_def)

text \<open>Claim C9: on the empty event list both passes return empty results: no timeline
  entry, no change list, no pair and an empty current-state table from \<open>analyze_log\<close>; no
  read-before-write record and no device-controlled record, indexed or direct, from
  \<open>analyze_registers\<close>. Neither function has a failing branch.\<close>

theorem empty_trace_empty_results:
  "analyze_log [] = ([], Map.empty, [], Map.empty) \<and>
   analyze_registers [] = ([], [], [], [])"
  by (simp add: analyze_log_def log_run_def log_init_def analyze_registers_def reg_run_def reg_init_def)

section \<open>Current values, change sequences and pairs\<close>

lemma current_state_log_step:
  "current_state (log_step i e s) =
    (if e_op e = ''Write'' then (current_state s)(e_offset e \<mapsto> Some (e_value e))
     else if current_state s (e_offset e) = None then (current_state s)(e_offset e \<mapsto> None)
     else current_state s)"
  by (cases "e_op e = ''Write''"; cases "current_state s (e_offset e)";
      cases "e_offset e = 0"; cases "e_offset e = 4"; cases "last_0x0_write s";
      simp add: log_step_def Let_def)

lemma all_changes_log_step:
  "all_changes (log_step i e s) =
    (let old = (case current_state s (e_offset e) of None \<Rightarrow> None | Some ov \<Rightarrow> ov);
         ac = (if current_state s (e_offset e) = None then (all_changes s)(e_offset e \<mapsto> [])
               else all_changes s)
     in if e_op e = ''Write'' \<and> old \<noteq> Some (e_value e)
        then ac(e_offset e \<mapsto> (case ac (e_offset e) of Some cs \<Rightarrow> cs | None \<Rightarrow> []) @
               [\<lparr>ch_index = i, ch_old = old, ch_new = e_value e\<rparr>])
        else ac)"
  by (cases "e_op e = ''Write''"; cases "current_state s (e_offset e)";
      cases "e_offset e = 0"; cases "e_offset e = 4"; cases "last_0x0_write s";
      simp add: log_step_def Let_def)

lemma pairs_log_step:
  "pairs_0x0_0x4 (log_step i e s) = pairs_0x0_0x4 s @
    (if e_op e = ''Write'' \<and> e_offset e = 4 \<and> last_0x0_write s \<noteq> None
     then [\<lparr>p_index = i, reg_select = snd (the (last_0x0_write s)), data_value = e_value e,
            data_changed = ((case current_state s 4 of None \<Rightarrow> None | Some ov \<Rightarrow> ov)
                             \<noteq> Some (e_value e))\<rparr>]
     else [])"
  by (cases "e_op e = ''Write''"; cases "current_state s (e_offset e)";
      cases "e_offset e = 0"; cases "e_offset e = 4"; cases "last_0x0_write s";
      simp add: log_step_def Let_def)

lemma last_0x0_write_log_step:
  "last_0x0_write (log_step i e s) =
    (if e_op e = ''Write'' \<and> e_offset e = 0 then Some (i, e_value e) else last_0x0_write s)"
  by (cases "e_op e = ''Write''"; cases "current_state s (e_offset e)";
      cases "e_offset e = 0"; cases "e_offset e = 4"; cases "last_0x0_write s";
      simp add: log_step_def Let_def)

lemma last_write_value_Nil: "last_write_value [] k = None"
  by (simp add: last_write_value_def)

lemma last_write_value_snoc:
  "last_write_value (es @ [e]) k =
    (if is_write_to k e then Some (e_value e) else last_write_value es k)"
  by (simp add: last_write_value_def Let_def)

lemma expected_changes_Nil: "expected_changes [] k = []"
  by (simp add: expected_changes_def)

lemma expected_changes_snoc:
  "expected_changes (es @ [e]) k = expected_changes es k @
    (if is_write_to k e \<and> last_write_value es k \<noteq> Some (e_value e)
     then [\<lparr>ch_index = length es, ch_old = last_write_value es k, ch_new = e_value e\<rparr>]
     else [])"
proof -
  let ?P = "\<lambda>xs i. is_write_to k (xs ! i) \<and> last_write_value (take i xs) k \<noteq> Some (e_value (xs ! i))"
  let ?f = "\<lambda>xs i. \<lparr>ch_index = i, ch_old = last_write_value (take i xs) k, ch_new = e_value (xs ! i)\<rparr>"
  have f: "filter (?P (es @ [e])) [0..<length es] = filter (?P es) [0..<length es]"
    by (rule filter_cong) (auto simp: nth_append)
  have m: "map (?f (es @ [e])) (filter (?P es) [0..<length es]) =
           map (?f es) (filter (?P es) [0..<length es])"
    by (rule map_cong) (auto simp: nth_append)
  have t: "take (length es) (es @ [e]) = es" by simp
  have "expected_changes (es @ [e]) k =
        map (?f (es @ [e])) (filter (?P (es @ [e])) ([0..<length es] @ [length es]))"
    by (simp add: expected_changes_def del: take_append)
  also have "\<dots> = map (?f (es @ [e])) (filter (?P (es @ [e])) [0..<length es]) @
        map (?f (es @ [e])) (filter (?P (es @ [e])) [length es])"
    by (simp only: filter_append map_append)
  also have "map (?f (es @ [e])) (filter (?P (es @ [e])) [0..<length es]) = expected_changes es k"
    by (simp only: f m expected_changes_def)
  also have "map (?f (es @ [e])) (filter (?P (es @ [e])) [length es]) =
    (if is_write_to k e \<and> last_write_value es k \<noteq> Some (e_value e)
     then [\<lparr>ch_index = length es, ch_old = last_write_value es k, ch_new = e_value e\<rparr>]
     else [])"
    by (simp add: t del: take_append)
  finally show ?thesis .
qed

lemma unseen_offset:
  assumes "k \<notin> e_offset ` set es"
  shows "last_write_value es k = None" and "expected_changes es k = []"
proof -
  have n: "\<And>x. x \<in> set es \<Longrightarrow> \<not> is_write_to k x"
    using assms by (auto simp: is_write_to_def)
  then show "last_write_value es k = None"
    by (simp add: last_write_value_def filter_empty_conv)
  show "expected_changes es k = []"
    using n by (simp add: expected_changes_def filter_empty_conv)
qed

lemma log_tables:
  "current_state (log_run es) k =
     (if k \<in> e_offset ` set es then Some (last_write_value es k) else None) \<and>
   all_changes (log_run es) k =
     (if k \<in> e_offset ` set es then Some (expected_changes es k) else None)"
proof (induction es rule: rev_induct)
  case Nil
  show ?case by (simp add: log_run_Nil log_init_def)
next
  case (snoc e es)
  show ?case
  proof (cases "k = e_offset e")
    case False
    then show ?thesis using snoc
      by (simp add: log_run_snoc current_state_log_step all_changes_log_step Let_def
        last_write_value_snoc expected_changes_snoc is_write_to_def)
  next
    case True
    show ?thesis
    proof (cases "k \<in> e_offset ` set es")
      case seen: True
      then show ?thesis using snoc True
      by (simp add: log_run_snoc current_state_log_step all_changes_log_step Let_def
        last_write_value_snoc expected_changes_snoc is_write_to_def)
    next
      case unseen: False
      then show ?thesis using snoc True unseen_offset[OF unseen]
      by (simp add: log_run_snoc current_state_log_step all_changes_log_step Let_def
        last_write_value_snoc expected_changes_snoc is_write_to_def)
    qed
  qed
qed

lemma last_0x0_write_log_run:
  "map_option snd (last_0x0_write (log_run es)) = last_write_value es 0"
  by (induction es rule: rev_induct)
     (simp_all add: log_run_Nil log_init_def log_run_snoc last_0x0_write_log_step
        last_write_value_Nil last_write_value_snoc is_write_to_def)

lemma pairs_log_run:
  "p \<in> set (pairs_0x0_0x4 (log_run es)) \<Longrightarrow>
     p_index p < length es \<and> is_write_to 4 (es ! p_index p) \<and>
     data_value p = e_value (es ! p_index p) \<and>
     last_write_value (take (p_index p) es) 0 = Some (reg_select p) \<and>
     data_changed p = (last_write_value (take (p_index p) es) 4 \<noteq> Some (data_value p))"
proof (induction es rule: rev_induct)
  case Nil
  then show ?case by (simp add: log_run_Nil log_init_def)
next
  case (snoc e es)
  from snoc.prems consider
    (old) "p \<in> set (pairs_0x0_0x4 (log_run es))"
  | (new) "e_op e = ''Write''" "e_offset e = 4" "last_0x0_write (log_run es) \<noteq> None"
      "p = \<lparr>p_index = length es, reg_select = snd (the (last_0x0_write (log_run es))),
            data_value = e_value e,
            data_changed = ((case current_state (log_run es) 4 of None \<Rightarrow> None | Some ov \<Rightarrow> ov)
                             \<noteq> Some (e_value e))\<rparr>"
    by (auto simp: log_run_snoc pairs_log_step split: if_splits)
  then show ?case
  proof cases
    case old
    from snoc.IH[OF old] show ?thesis by (simp add: nth_append)
  next
    case new
    have r: "last_write_value es 0 = Some (snd (the (last_0x0_write (log_run es))))"
      using new(3) last_0x0_write_log_run[of es] by (auto simp: map_option_case split: option.splits)
    have c: "(case current_state (log_run es) 4 of None \<Rightarrow> None | Some ov \<Rightarrow> ov) = last_write_value es 4"
      using log_tables[of es 4] by (auto simp: last_write_value_def is_write_to_def Let_def filter_empty_conv)
    show ?thesis using new r c by (simp add: is_write_to_def)
  qed
qed

text \<open>Claim C4: for every offset, the change sequence that \<open>analyze_log\<close> records is
  exactly the list of Writes to that offset whose value differs from the current value
  just before them (the last value written there, absent before the first Write), in
  trace order; only Writes appear in it. An offset has a sequence as soon as any event
  names it, and none otherwise.\<close>

theorem change_sequences:
  "fst (snd (analyze_log es)) k =
     (if k \<in> e_offset ` set es then Some (expected_changes es k) else None)"
  using log_tables[of es k] by (simp add: analyze_log_def Let_def)

theorem change_sequences_witness:
  "fst (snd (analyze_log [ev ''Write'' 8 1, ev ''Read'' 8 7, ev ''Write'' 8 1, ev ''Write'' 8 2])) 8 =
     Some [\<lparr>ch_index = 0, ch_old = None, ch_new = 1\<rparr>, \<lparr>ch_index = 3, ch_old = Some 1, ch_new = 2\<rparr>]"
proof -
  have "expected_changes [ev ''Write'' 8 1, ev ''Read'' 8 7, ev ''Write'' 8 1, ev ''Write'' 8 2] 8 =
     [\<lparr>ch_index = 0, ch_old = None, ch_new = 1\<rparr>, \<lparr>ch_index = 3, ch_old = Some 1, ch_new = 2\<rparr>]"
    by code_simp
  then show ?thesis
    using change_sequences[of "[ev ''Write'' 8 1, ev ''Read'' 8 7, ev ''Write'' 8 1, ev ''Write'' 8 2]" 8]
    by (simp add: ev_def)
qed

text \<open>Claim C1 as stated fails: after 0x0 <- 5, 0x4 <- 10, 0x0 <- 6, 0x4 <- 10 the second
  pair record, for reg_select 6, has \<open>data_changed\<close> false, although no value had been
  recorded for register 6 before it, so the written 10 differs from the (absent) current
  value at that key.\<close>

theorem data_changed_not_per_reg_select:
  "fst (snd (snd (analyze_log
      [ev ''Write'' 0 5, ev ''Write'' 4 10, ev ''Write'' 0 6, ev ''Write'' 4 10]))) =
     [\<lparr>p_index = 1, reg_select = 5, data_value = 10, data_changed = True\<rparr>,
      \<lparr>p_index = 3, reg_select = 6, data_value = 10, data_changed = False\<rparr>] \<and>
   keyed_current (take 3 [ev ''Write'' 0 5, ev ''Write'' 4 10, ev ''Write'' 0 6, ev ''Write'' 4 10]) 6
     = None"
proof
  show "fst (snd (snd (analyze_log
      [ev ''Write'' 0 5, ev ''Write'' 4 10, ev ''Write'' 0 6, ev ''Write'' 4 10]))) =
     [\<lparr>p_index = 1, reg_select = 5, data_value = 10, data_changed = True\<rparr>,
      \<lparr>p_index = 3, reg_select = 6, data_value = 10, data_changed = False\<rparr>]"
    by (simp add: analyze_log_def log_run_def log_init_def log_step_def Let_def ev_def)
  show "keyed_current (take 3 [ev ''Write'' 0 5, ev ''Write'' 4 10, ev ''Write'' 0 6, ev ''Write'' 4 10]) 6
     = None"
    by code_simp
qed

text \<open>Claim C1, amended: for every pair record emitted by \<open>analyze_log\<close>, \<open>data_changed\<close>
  is true if and only if the written data value differs from the value most recently
  written to the data offset 0x4 before it (absent before the first such Write),
  whatever the index value was at that time.\<close>

theorem data_changed_per_data_offset:
  "\<forall>p \<in> set (fst (snd (snd (analyze_log es)))).
     data_changed p = (last_write_value (take (p_index p) es) 4 \<noteq> Some (data_value p))"
  using pairs_log_run[of _ es] by (simp add: analyze_log_def Let_def)

theorem data_changed_per_data_offset_witness:
  "\<lparr>p_index = 3, reg_select = 6, data_value = 10, data_changed = False\<rparr>
     \<in> set (fst (snd (snd (analyze_log
         [ev ''Write'' 0 5, ev ''Write'' 4 10, ev ''Write'' 0 6, ev ''Write'' 4 10])))) \<and>
   last_write_value (take 3 [ev ''Write'' 0 5, ev ''Write'' 4 10, ev ''Write'' 0 6, ev ''Write'' 4 10]) 4
     = Some 10"
proof -
  let ?es = "[ev ''Write'' 0 5, ev ''Write'' 4 10, ev ''Write'' 0 6, ev ''Write'' 4 10]"
  let ?p = "\<lparr>p_index = 3, reg_select = 6, data_value = 10, data_changed = False\<rparr>"
  have m: "?p \<in> set (fst (snd (snd (analyze_log ?es))))"
    by (simp add: analyze_log_def log_run_def log_init_def log_step_def Let_def ev_def)
  from data_changed_per_data_offset[of ?es, rule_format, OF m]
  have "last_write_value (take 3 ?es) 4 = Some 10" by simp
  with m show ?thesis by simp
qed

section \<open>The classification pass as a keyed machine\<close>

lemma reg_loop_snoc:
  "reg_loop i (es @ [e]) s = reg_step (i + length es) e (reg_loop i es s)"
  by (induction es arbitrary: i s) simp_all

lemma reg_run_snoc: "reg_run (es @ [e]) = reg_step (length es) e (reg_run es)"
  by (simp add: reg_run_def reg_loop_snoc)

lemma reg_run_Nil: "reg_run [] = reg_init"
  by (simp add: reg_run_def)

text \<open>The state in which the loop stands after its first \<open>n\<close> iterations is the result
  of running the first \<open>n\<close> entries alone.\<close>

lemma reg_loop_append:
  "reg_loop i (xs @ ys) s = reg_loop (i + length xs) ys (reg_loop i xs s)"
  by (induction xs arbitrary: i s) simp_all

lemma reg_run_prefix:
  "reg_run es = reg_loop (length (take n es)) (drop n es) (reg_run (take n es))"
  using reg_loop_append[of 0 "take n es" "drop n es" reg_init] by (simp add: reg_run_def)

lemma kloop_snoc: "kloop i (xs @ [x]) s = kstep (i + length xs) x (kloop i xs s)"
  by (induction xs arbitrary: i s) simp_all

lemma krun_snoc: "krun (xs @ [x]) = kstep (length xs) x (krun xs)"
  by (simp add: krun_def kloop_snoc)

lemma krun_Nil: "krun [] = kinit"
  by (simp add: krun_def)

lemma current_index_reg_step:
  "current_index (reg_step i e s) =
     (if is_write_to 0 e then Some (e_value e) else current_index s)"
  by (cases "e_op e = ''Read''"; cases "e_op e = ''Write''"; cases "current_index s";
      cases "indexed_state s (the (current_index s))"; cases "direct_state s (e_offset e)";
      simp add: reg_step_def indexed_step_def direct_step_def Let_def is_write_to_def)

lemma current_index_reg_run: "current_index (reg_run es) = last_write_value es 0"
  by (induction es rule: rev_induct)
     (simp_all add: reg_run_Nil reg_init_def reg_run_snoc current_index_reg_step
        last_write_value_Nil last_write_value_snoc)

lemma kproj_direct_step:
  "kproj Direct (reg_step i e s) = kstep i (dacc e) (kproj Direct s)"
  by (cases "e_op e = ''Read''"; cases "e_op e = ''Write''"; cases "current_index s";
      cases "indexed_state s (the (current_index s))"; cases "direct_state s (e_offset e)";
      simp add: reg_step_def indexed_step_def direct_step_def Let_def dacc_def)

lemma kproj_indexed_step:
  "kproj Indexed (reg_step i e s) = kstep i (iacc (current_index s) e) (kproj Indexed s)"
  by (cases "e_op e = ''Read''"; cases "e_op e = ''Write''"; cases "current_index s";
      cases "indexed_state s (the (current_index s))"; cases "direct_state s (e_offset e)";
      simp add: reg_step_def indexed_step_def direct_step_def Let_def iacc_def)

lemma access_snoc_old: "i < length es \<Longrightarrow> access sch (es @ [e]) i = access sch es i"
  by (cases sch) (simp_all add: access_def nth_append split: option.splits)

lemma access_snoc_new:
  "access Direct (es @ [e]) (length es) = dacc e"
  "access Indexed (es @ [e]) (length es) = iacc (last_write_value es 0) e"
  by (simp_all add: access_def dacc_def iacc_def split: option.splits)

lemma kview_snoc: "kview sch (es @ [e]) = kview sch es @ [access sch (es @ [e]) (length es)]"
  by (simp add: kview_def access_snoc_old)

lemma length_kview: "length (kview sch es) = length es"
  by (simp add: kview_def)

lemma kproj_reg_run: "kproj sch (reg_run es) = krun (kview sch es)"
proof (induction es rule: rev_induct)
  case Nil
  show ?case by (cases sch) (simp_all add: reg_run_Nil reg_init_def krun_Nil kinit_def kview_def)
next
  case (snoc e es)
  show ?case
  proof (cases sch)
    case Direct
    then show ?thesis using snoc
      by (simp add: reg_run_snoc kproj_direct_step kview_snoc krun_snoc access_snoc_new
          length_kview del: kproj.simps)
  next
    case Indexed
    then show ?thesis using snoc
      by (simp add: reg_run_snoc kproj_indexed_step kview_snoc krun_snoc access_snoc_new
          current_index_reg_run length_kview del: kproj.simps)
  qed
qed

lemma nth_kview: "i < length es \<Longrightarrow> kview sch es ! i = access sch es i"
  by (simp add: kview_def)

lemma reads_key_kview: "reads_key sch es i k v = kR (kview sch es) i k v"
  by (auto simp: reads_key_def kR_def length_kview nth_kview access_def split: option.splits)

lemma writes_key_kview: "writes_key sch es i k = kW (kview sch es) i k"
  by (auto simp: writes_key_def kW_def length_kview nth_kview access_def split: option.splits)

lemma untouched_kview: "untouched sch es i k = kU (kview sch es) i k"
  by (simp add: untouched_def kU_def reads_key_kview writes_key_kview)

subsection \<open>The steps of the keyed machine\<close>

lemma kstep_Read:
  "kstep i (Some (''Read'', k, v)) s =
    \<lparr>k_written = k_written s,
     k_reported = (if k \<notin> k_written s \<and> k \<notin> k_reported s then insert k (k_reported s)
                   else k_reported s),
     k_rbw = k_rbw s @ (if k \<notin> k_written s \<and> k \<notin> k_reported s
                        then [\<lparr>rbw_key = k, rbw_value = v, rbw_line = i\<rparr>] else []),
     k_table = (k_table s)(k \<mapsto> \<lparr>last_read = Some v, write_since_read = False\<rparr>),
     k_dc = k_dc s @ (case k_table s k of
                        None \<Rightarrow> []
                      | Some st \<Rightarrow> if \<not> write_since_read st \<and> last_read st \<noteq> Some v
                                   then [\<lparr>dc_key = k, old_value = last_read st, new_value = v,
                                          dc_line = i\<rparr>]
                                   else [])\<rparr>"
  by (cases "k_table s k") (simp_all add: Let_def)

lemma kstep_Write:
  "kstep i (Some (''Write'', k, v)) s =
    \<lparr>k_written = insert k (k_written s),
     k_reported = k_reported s,
     k_rbw = k_rbw s,
     k_table = (k_table s)(k \<mapsto> (case k_table s k of
                                     Some st \<Rightarrow> st\<lparr>write_since_read := True\<rparr>
                                   | None \<Rightarrow> \<lparr>last_read = None, write_since_read = True\<rparr>)),
     k_dc = k_dc s\<rparr>"
  by (cases "k_table s k") (simp_all add: Let_def)

lemma kstep_other:
  "opn \<noteq> ''Read'' \<Longrightarrow> opn \<noteq> ''Write'' \<Longrightarrow> kstep i (Some (opn, k, v)) s = s"
  by simp

lemma kev_cases [case_names Skip Read Write Other]:
  obtains "x = None"
  | k v where "x = Some (''Read'', k, v)"
  | k v where "x = Some (''Write'', k, v)"
  | opn k v where "x = Some (opn, k, v)" "opn \<noteq> ''Read''" "opn \<noteq> ''Write''"
proof (cases x)
  case None
  then show ?thesis using that(1) by simp
next
  case (Some t)
  obtain opn k v where t: "t = (opn, k, v)" by (cases t)
  show ?thesis using that(2-4) Some t by blast
qed

lemma kstep_Skip: "kstep i None s = s"
  by simp

declare kstep.simps [simp del]

lemma kR_less: "kR xs i k v \<Longrightarrow> i < length xs"
  by (simp add: kR_def)

lemma kW_less: "kW xs i k \<Longrightarrow> i < length xs"
  by (simp add: kW_def)

lemma kU_beyond: "length xs \<le> i \<Longrightarrow> kU xs i k"
  by (simp add: kU_def kR_def kW_def)

lemma kR_snoc:
  "kR (xs @ [x]) i k v \<longleftrightarrow> kR xs i k v \<or> (i = length xs \<and> x = Some (''Read'', k, v))"
  by (auto simp: kR_def nth_append)

lemma kW_snoc:
  "kW (xs @ [x]) i k \<longleftrightarrow> kW xs i k \<or> (i = length xs \<and> (\<exists>v. x = Some (''Write'', k, v)))"
  by (auto simp: kW_def nth_append)

lemma kU_snoc:
  "kU (xs @ [x]) i k \<longleftrightarrow>
     kU xs i k \<and> \<not> (i = length xs \<and> (\<exists>v. x = Some (''Write'', k, v) \<or> x = Some (''Read'', k, v)))"
  by (auto simp: kU_def kR_snoc kW_snoc)

lemma kU_snoc_old: "i < length xs \<Longrightarrow> kU (xs @ [x]) i k = kU xs i k"
  by (simp add: kU_snoc)

lemma k_written_krun: "k \<in> k_written (krun xs) \<longleftrightarrow> (\<exists>i. kW xs i k)"
proof (induction xs rule: rev_induct)
  case Nil
  show ?case by (simp add: krun_Nil kinit_def kW_def)
next
  case (snoc x xs)
  show ?case
    by (cases x rule: kev_cases)
       (auto simp: krun_snoc kstep_Skip kstep_Read kstep_Write kstep_other kW_snoc snoc)
qed

lemma k_reported_krun:
  "k \<in> k_reported (krun xs) \<longleftrightarrow> (\<exists>i v. kR xs i k v \<and> (\<forall>j<i. \<not> kW xs j k))"
proof (induction xs rule: rev_induct)
  case Nil
  show ?case by (simp add: krun_Nil kinit_def kR_def)
next
  case (snoc x xs)
  have old: "\<And>i v. kR xs i k v \<Longrightarrow> (\<forall>j<i. \<not> kW (xs @ [x]) j k) = (\<forall>j<i. \<not> kW xs j k)"
    by (auto simp: kW_snoc dest: kR_less)
  have new: "(\<forall>j<length xs. \<not> kW (xs @ [x]) j k) = (k \<notin> k_written (krun xs))"
    by (auto simp: kW_snoc k_written_krun dest: kW_less)
  have rhs: "(\<exists>i v. kR (xs @ [x]) i k v \<and> (\<forall>j<i. \<not> kW (xs @ [x]) j k)) \<longleftrightarrow>
    k \<in> k_reported (krun xs) \<or> ((\<exists>v. x = Some (''Read'', k, v)) \<and> k \<notin> k_written (krun xs))"
    unfolding snoc using old new by (auto simp: kR_snoc)
  show ?case unfolding rhs
    by (cases x rule: kev_cases) (auto simp: krun_snoc kstep_Skip kstep_Read kstep_Write kstep_other)
qed

lemma k_rbw_krun:
  "r \<in> set (k_rbw (krun xs)) \<longleftrightarrow>
     kR xs (rbw_line r) (rbw_key r) (rbw_value r) \<and> (\<forall>j<rbw_line r. kU xs j (rbw_key r))"
proof (induction xs rule: rev_induct)
  case Nil
  show ?case by (simp add: krun_Nil kinit_def kR_def)
next
  case (snoc x xs)
  let ?k = "rbw_key r"
  have old: "kR xs (rbw_line r) ?k (rbw_value r) \<Longrightarrow>
     (\<forall>j<rbw_line r. kU (xs @ [x]) j ?k) = (\<forall>j<rbw_line r. kU xs j ?k)"
    by (auto simp: kU_snoc dest: kR_less)
  have fresh: "(\<forall>j<length xs. kU xs j ?k) \<longleftrightarrow>
     ?k \<notin> k_written (krun xs) \<and> ?k \<notin> k_reported (krun xs)"
  proof
    assume u: "\<forall>j<length xs. kU xs j ?k"
    then show "?k \<notin> k_written (krun xs) \<and> ?k \<notin> k_reported (krun xs)"
      by (auto simp: k_written_krun k_reported_krun kU_def dest: kR_less kW_less)
  next
    assume f: "?k \<notin> k_written (krun xs) \<and> ?k \<notin> k_reported (krun xs)"
    then have w: "\<And>j. \<not> kW xs j ?k" by (simp add: k_written_krun)
    with f have "\<And>j v. \<not> kR xs j ?k v" by (auto simp: k_reported_krun)
    with w show "\<forall>j<length xs. kU xs j ?k" by (simp add: kU_def)
  qed
  have new: "(\<forall>j<length xs. kU (xs @ [x]) j ?k) = (\<forall>j<length xs. kU xs j ?k)"
    by (simp add: kU_snoc)
  have rhs: "kR (xs @ [x]) (rbw_line r) ?k (rbw_value r) \<and> (\<forall>j<rbw_line r. kU (xs @ [x]) j ?k) \<longleftrightarrow>
    r \<in> set (k_rbw (krun xs)) \<or>
    (rbw_line r = length xs \<and> x = Some (''Read'', ?k, rbw_value r) \<and>
     ?k \<notin> k_written (krun xs) \<and> ?k \<notin> k_reported (krun xs))"
    unfolding snoc using old new fresh by (auto simp: kR_snoc dest: kR_less)
  show ?case unfolding rhs
    by (cases x rule: kev_cases) (auto simp: krun_snoc kstep_Skip kstep_Read kstep_Write kstep_other)
qed

lemma k_table_flag:
  "\<forall>st. k_table (krun xs) k = Some st \<and> \<not> write_since_read st \<longrightarrow> last_read st \<noteq> None"
proof (induction xs rule: rev_induct)
  case Nil
  show ?case by (simp add: krun_Nil kinit_def)
next
  case (snoc x xs)
  then show ?case
    by (cases x rule: kev_cases)
       (auto simp: krun_snoc kstep_Skip kstep_Read kstep_Write kstep_other split: option.splits)
qed

lemma last_read_snoc:
  "(\<exists>i. kR (xs @ [x]) i k v \<and> (\<forall>m>i. kU (xs @ [x]) m k)) \<longleftrightarrow>
     (if ktouch x k then x = Some (''Read'', k, v)
      else (\<exists>i. kR xs i k v \<and> (\<forall>m>i. kU xs m k)))"
proof (cases "ktouch x k")
  case True
  have "\<not> kU (xs @ [x]) (length xs) k"
    using True by (auto simp: kU_snoc ktouch_def)
  then have a: "\<And>i. kR xs i k v \<Longrightarrow> \<not> (\<forall>m>i. kU (xs @ [x]) m k)"
    using kR_less by blast
  have b: "\<forall>m>length xs. kU (xs @ [x]) m k"
    by (simp add: kU_beyond)
  show ?thesis using True a b by (auto simp: kR_snoc)
next
  case False
  then have u: "\<And>m. kU (xs @ [x]) m k = kU xs m k"
    by (auto simp: kU_snoc ktouch_def)
  have "x \<noteq> Some (''Read'', k, v)" using False by (auto simp: ktouch_def)
  then show ?thesis using False by (simp add: kR_snoc u)
qed

lemma k_table_krun:
  "(\<exists>st. k_table (krun xs) k = Some st \<and> \<not> write_since_read st \<and> last_read st = Some v) \<longleftrightarrow>
   (\<exists>i. kR xs i k v \<and> (\<forall>m>i. kU xs m k))"
proof (induction xs rule: rev_induct)
  case Nil
  show ?case by (simp add: krun_Nil kinit_def kR_def)
next
  case (snoc x xs)
  show ?case unfolding last_read_snoc
    using snoc
    by (cases x rule: kev_cases)
       (auto simp: krun_snoc kstep_Skip kstep_Read kstep_Write kstep_other ktouch_def
             split: option.splits)
qed

lemma kD_snoc:
  "kD (xs @ [x]) r \<longleftrightarrow>
     kD xs r \<or>
     (dc_line r = length xs \<and> x = Some (''Read'', dc_key r, new_value r) \<and>
      (\<exists>v1. old_value r = Some v1 \<and> v1 \<noteq> new_value r \<and>
         (\<exists>i. kR xs i (dc_key r) v1 \<and> (\<forall>m>i. kU xs m (dc_key r)))))"
proof (cases "dc_line r < length xs")
  case True
  then have "kD (xs @ [x]) r = kD xs r"
    unfolding kD_def by (auto simp: kR_snoc kU_snoc)
  then show ?thesis using True by simp
next
  case False
  then have n: "\<not> kD xs r" by (auto simp: kD_def dest: kR_less)
  have u: "\<And>i. (\<forall>m. i < m \<and> m < length xs \<longrightarrow> kU (xs @ [x]) m (dc_key r)) =
                 (\<forall>m>i. kU xs m (dc_key r))"
    by (metis kU_beyond kU_snoc_old not_le_imp_less)
  show ?thesis
  proof (cases "dc_line r = length xs")
    case eq: True
    have "kD (xs @ [x]) r \<longleftrightarrow>
      (\<exists>i v1. old_value r = Some v1 \<and> i < length xs \<and> kR xs i (dc_key r) v1 \<and>
         x = Some (''Read'', dc_key r, new_value r) \<and> v1 \<noteq> new_value r \<and>
         (\<forall>m>i. kU xs m (dc_key r)))"
      unfolding kD_def eq by (simp add: kR_snoc u cong: conj_cong) (metis kR_less less_irrefl)
    also have "\<dots> \<longleftrightarrow> (x = Some (''Read'', dc_key r, new_value r) \<and>
      (\<exists>v1. old_value r = Some v1 \<and> v1 \<noteq> new_value r \<and>
         (\<exists>i. kR xs i (dc_key r) v1 \<and> (\<forall>m>i. kU xs m (dc_key r)))))"
      using kR_less by blast
    finally show ?thesis using n eq by simp
  next
    case neq: False
    then have "\<not> kD (xs @ [x]) r" using False
      by (auto simp: kD_def kR_snoc dest: kR_less)
    then show ?thesis using n neq by simp
  qed
qed

lemma k_dc_krun: "r \<in> set (k_dc (krun xs)) \<longleftrightarrow> kD xs r"
proof (induction xs rule: rev_induct)
  case Nil
  show ?case by (simp add: krun_Nil kinit_def kD_def kR_def)
next
  case (snoc x xs)
  let ?new = "dc_line r = length xs \<and> x = Some (''Read'', dc_key r, new_value r) \<and>
      (\<exists>v1. old_value r = Some v1 \<and> v1 \<noteq> new_value r \<and>
         (\<exists>st. k_table (krun xs) (dc_key r) = Some st \<and> \<not> write_since_read st \<and>
               last_read st = Some v1))"
  have goal: "kD (xs @ [x]) r \<longleftrightarrow> r \<in> set (k_dc (krun xs)) \<or> ?new"
    unfolding kD_snoc snoc k_table_krun ..
  have "r \<in> set (k_dc (krun (xs @ [x]))) \<longleftrightarrow> r \<in> set (k_dc (krun xs)) \<or> ?new"
  proof (cases x rule: kev_cases)
    case Skip
    then show ?thesis by (simp add: krun_snoc kstep_Skip)
  next
    case (Write k v)
    then show ?thesis by (simp add: krun_snoc kstep_Write)
  next
    case (Other opn k v)
    then show ?thesis by (simp add: krun_snoc kstep_other)
  next
    case (Read k v)
    show ?thesis
    proof (cases "k_table (krun xs) k")
      case None
      then show ?thesis using Read by (auto simp: krun_snoc kstep_Read)
    next
      case (Some st)
      show ?thesis
      proof (cases "write_since_read st")
        case True
        then show ?thesis using Read Some by (auto simp: krun_snoc kstep_Read)
      next
        case False
        then obtain v1 where v1: "last_read st = Some v1"
          using k_table_flag[of xs k] Some by auto
        show ?thesis using Read Some False v1 by (auto simp: krun_snoc kstep_Read)
      qed
    qed
  qed
  with goal show ?case by simp
qed

section \<open>Read-before-write and device-controlled records\<close>

lemma records_krun:
  "rbw_records sch es = k_rbw (krun (kview sch es))"
  "dc_records sch es = k_dc (krun (kview sch es))"
  "state_table sch (reg_run es) = k_table (krun (kview sch es))"
  unfolding kproj_reg_run[symmetric]
  by (cases sch; simp add: analyze_registers_def Let_def)+

lemma rbw_records_iff:
  "r \<in> set (rbw_records sch es) \<longleftrightarrow>
     reads_key sch es (rbw_line r) (rbw_key r) (rbw_value r) \<and>
     (\<forall>j<rbw_line r. untouched sch es j (rbw_key r))"
  by (simp add: records_krun k_rbw_krun reads_key_kview untouched_kview)

lemma dc_records_iff:
  "r \<in> set (dc_records sch es) \<longleftrightarrow>
     (\<exists>i v1. old_value r = Some v1 \<and> i < dc_line r \<and> reads_key sch es i (dc_key r) v1 \<and>
        reads_key sch es (dc_line r) (dc_key r) (new_value r) \<and> v1 \<noteq> new_value r \<and>
        (\<forall>m. i < m \<and> m < dc_line r \<longrightarrow> untouched sch es m (dc_key r)))"
  by (simp add: records_krun k_dc_krun kD_def reads_key_kview untouched_kview)

lemma k_rbw_distinct:
  "distinct (map rbw_key (k_rbw (krun xs))) \<and>
   rbw_key ` set (k_rbw (krun xs)) \<subseteq> k_reported (krun xs)"
proof (induction xs rule: rev_induct)
  case Nil
  show ?case by (simp add: krun_Nil kinit_def)
next
  case (snoc x xs)
  then show ?case
    by (cases x rule: kev_cases)
       (auto simp: krun_snoc kstep_Skip kstep_Read kstep_Write kstep_other)
qed

lemma k_rbw_line_order: "sorted_wrt (<) (map rbw_line (k_rbw (krun xs)))"
proof (induction xs rule: rev_induct)
  case Nil
  show ?case by (simp add: krun_Nil kinit_def)
next
  case (snoc x xs)
  have b: "\<And>r. r \<in> set (k_rbw (krun xs)) \<Longrightarrow> rbw_line r < length xs"
    using kR_less by (auto simp: k_rbw_krun)
  show ?case using snoc b
    by (cases x rule: kev_cases)
       (auto simp: krun_snoc kstep_Skip kstep_Read kstep_Write kstep_other sorted_wrt_append)
qed

lemma read_not_write: "reads_key sch es i k v \<Longrightarrow> \<not> writes_key sch es i k'"
  by (auto simp: reads_key_def writes_key_def)

text \<open>Claim C2: under either scheme and for every key, \<open>analyze_registers\<close> emits a
  device-controlled record with that key, old value \<open>v1\<close> and new value \<open>v2\<close> if and only
  if the trace has two Reads of the key with values \<open>v1\<close> and \<open>v2\<close>, \<open>v1\<close> differing from
  \<open>v2\<close>, with neither a Read nor a Write of that key between them: the second is the
  next Read of the key and no Write to the key intervenes. Accesses to other keys between
  the two Reads do not matter.\<close>

theorem device_controlled_iff:
  "(\<exists>r \<in> set (dc_records sch es). dc_key r = k \<and> old_value r = Some v1 \<and> new_value r = v2) \<longleftrightarrow>
   (\<exists>i j. i < j \<and> reads_key sch es i k v1 \<and> reads_key sch es j k v2 \<and> v1 \<noteq> v2 \<and>
      (\<forall>m. i < m \<and> m < j \<longrightarrow> untouched sch es m k))"
proof
  assume "\<exists>r \<in> set (dc_records sch es). dc_key r = k \<and> old_value r = Some v1 \<and> new_value r = v2"
  then obtain r where r: "r \<in> set (dc_records sch es)" "dc_key r = k" "old_value r = Some v1"
    "new_value r = v2" by blast
  from r(1) obtain i w where "old_value r = Some w" "i < dc_line r"
    "reads_key sch es i (dc_key r) w" "reads_key sch es (dc_line r) (dc_key r) (new_value r)"
    "w \<noteq> new_value r" "\<forall>m. i < m \<and> m < dc_line r \<longrightarrow> untouched sch es m (dc_key r)"
    unfolding dc_records_iff by blast
  with r(2-4) show "\<exists>i j. i < j \<and> reads_key sch es i k v1 \<and> reads_key sch es j k v2 \<and> v1 \<noteq> v2 \<and>
      (\<forall>m. i < m \<and> m < j \<longrightarrow> untouched sch es m k)"
    by auto
next
  assume "\<exists>i j. i < j \<and> reads_key sch es i k v1 \<and> reads_key sch es j k v2 \<and> v1 \<noteq> v2 \<and>
      (\<forall>m. i < m \<and> m < j \<longrightarrow> untouched sch es m k)"
  then obtain i j where ij: "i < j" "reads_key sch es i k v1" "reads_key sch es j k v2" "v1 \<noteq> v2"
      "\<forall>m. i < m \<and> m < j \<longrightarrow> untouched sch es m k" by blast
  let ?r = "\<lparr>dc_key = k, old_value = Some v1, new_value = v2, dc_line = j\<rparr>"
  have "?r \<in> set (dc_records sch es)"
    unfolding dc_records_iff using ij by auto
  then show "\<exists>r \<in> set (dc_records sch es). dc_key r = k \<and> old_value r = Some v1 \<and> new_value r = v2"
    by force
qed

text \<open>Claim C3: under either scheme and for every key \<open>k\<close>, a read-before-write record
  for \<open>k\<close> exists if and only if the first Read of \<open>k\<close> comes before the first Write of
  \<open>k\<close> or \<open>k\<close> is never written; the list holds at most one record per key; and every
  record carries the position and the value of the first Read of its key.\<close>

theorem read_before_write_iff:
  "((\<exists>r \<in> set (rbw_records sch es). rbw_key r = k) \<longleftrightarrow>
      (\<exists>i v. first_read_at sch es i k v \<and>
         ((\<exists>w. first_write_at sch es w k \<and> i < w) \<or> (\<forall>w. \<not> writes_key sch es w k)))) \<and>
   distinct (map rbw_key (rbw_records sch es)) \<and>
   (\<forall>r \<in> set (rbw_records sch es).
      first_read_at sch es (rbw_line r) (rbw_key r) (rbw_value r))"
proof (intro conjI)
  show "distinct (map rbw_key (rbw_records sch es))"
    using k_rbw_distinct by (simp add: records_krun)
  show first: "\<forall>r \<in> set (rbw_records sch es).
      first_read_at sch es (rbw_line r) (rbw_key r) (rbw_value r)"
    by (auto simp: rbw_records_iff first_read_at_def untouched_def)
  show "(\<exists>r \<in> set (rbw_records sch es). rbw_key r = k) \<longleftrightarrow>
      (\<exists>i v. first_read_at sch es i k v \<and>
         ((\<exists>w. first_write_at sch es w k \<and> i < w) \<or> (\<forall>w. \<not> writes_key sch es w k)))"
  proof
    assume "\<exists>r \<in> set (rbw_records sch es). rbw_key r = k"
    then obtain r where r: "r \<in> set (rbw_records sch es)" "rbw_key r = k" by blast
    let ?i = "rbw_line r"
    have fr: "first_read_at sch es ?i k (rbw_value r)" using first r by auto
    have rd: "reads_key sch es ?i k (rbw_value r)" using fr by (simp add: first_read_at_def)
    have un: "\<forall>j<?i. \<not> writes_key sch es j k"
      using r by (auto simp: rbw_records_iff untouched_def)
    have "(\<exists>w. first_write_at sch es w k \<and> ?i < w) \<or> (\<forall>w. \<not> writes_key sch es w k)"
    proof (cases "\<exists>w. writes_key sch es w k")
      case False
      then show ?thesis by simp
    next
      case True
      define w where "w = (LEAST w. writes_key sch es w k)"
      have w: "writes_key sch es w k" unfolding w_def using True by (metis LeastI)
      have least: "\<forall>j<w. \<not> writes_key sch es j k"
        unfolding w_def using not_less_Least by blast
      have "w \<noteq> ?i" using w rd read_not_write by blast
      moreover have "\<not> w < ?i" using un w by blast
      ultimately have "?i < w" by simp
      then show ?thesis using w least by (auto simp: first_write_at_def)
    qed
    with fr show "\<exists>i v. first_read_at sch es i k v \<and>
         ((\<exists>w. first_write_at sch es w k \<and> i < w) \<or> (\<forall>w. \<not> writes_key sch es w k))"
      by blast
  next
    assume "\<exists>i v. first_read_at sch es i k v \<and>
         ((\<exists>w. first_write_at sch es w k \<and> i < w) \<or> (\<forall>w. \<not> writes_key sch es w k))"
    then obtain i v where fr: "first_read_at sch es i k v"
      and wr: "(\<exists>w. first_write_at sch es w k \<and> i < w) \<or> (\<forall>w. \<not> writes_key sch es w k)"
      by blast
    have nw: "\<forall>j<i. \<not> writes_key sch es j k"
      using wr by (auto simp: first_write_at_def)
    let ?r = "\<lparr>rbw_key = k, rbw_value = v, rbw_line = i\<rparr>"
    have "?r \<in> set (rbw_records sch es)"
      unfolding rbw_records_iff using fr nw by (auto simp: first_read_at_def untouched_def)
    then show "\<exists>r \<in> set (rbw_records sch es). rbw_key r = k" by force
  qed
qed

text \<open>Claim C10: after any prefix of the trace (its first \<open>n\<close> events), every entry of
  the indexed or direct state table whose \<open>write_since_read\<close> flag is false has a present
  \<open>last_read\<close> value; and every device-controlled record emitted carries a present
  \<open>old_value\<close>.\<close>

theorem flag_false_has_last_read:
  "(\<forall>k st. state_table sch (reg_run (take n es)) k = Some st \<and> \<not> write_since_read st
       \<longrightarrow> last_read st \<noteq> None) \<and>
   (\<forall>r \<in> set (dc_records sch es). old_value r \<noteq> None)"
proof
  show "\<forall>k st. state_table sch (reg_run (take n es)) k = Some st \<and> \<not> write_since_read st
       \<longrightarrow> last_read st \<noteq> None"
    unfolding records_krun using k_table_flag[of "kview sch (take n es)"] by blast
  show "\<forall>r \<in> set (dc_records sch es). old_value r \<noteq> None"
    by (auto simp: dc_records_iff)
qed

text \<open>Claim C6 as stated fails: on a Read of 0xC followed by a Read of 0x8 the direct
  read-before-write list returned by \<open>analyze_registers\<close> holds the key 0xC before the
  key 0x8.\<close>

theorem rbw_lists_not_sorted_by_key:
  "\<not> sorted (map rbw_key (fst (snd (analyze_registers [ev ''Read'' 12 1, ev ''Read'' 8 1]))))"
  by (simp add: analyze_registers_def reg_run_def reg_init_def reg_step_def direct_step_def
      Let_def ev_def)

text \<open>Claim C6, amended: each read-before-write list returned by \<open>analyze_registers\<close> is
  in trace order (strictly ascending line numbers); \<open>write_report\<close> prints it sorted by
  key, which gives the same records in strictly ascending order of key.\<close>

theorem rbw_report_order:
  "sorted_wrt (<) (map rbw_line (rbw_records sch es)) \<and>
   sorted_wrt (<) (map rbw_key (report_rbw_order (rbw_records sch es))) \<and>
   mset (report_rbw_order (rbw_records sch es)) = mset (rbw_records sch es)"
proof (intro conjI)
  let ?xs = "rbw_records sch es"
  show "sorted_wrt (<) (map rbw_line ?xs)"
    using k_rbw_line_order by (simp add: records_krun)
  show "mset (report_rbw_order ?xs) = mset ?xs"
    by (simp add: report_rbw_order_def)
  have d: "distinct (map rbw_key ?xs)"
    using k_rbw_distinct by (simp add: records_krun)
  have "mset (map rbw_key (sort_key rbw_key ?xs)) = mset (map rbw_key ?xs)"
    by simp
  then have "distinct (map rbw_key (sort_key rbw_key ?xs))"
    using d by (metis mset_eq_imp_distinct_iff)
  moreover have "sorted (map rbw_key (sort_key rbw_key ?xs))"
    by (rule sorted_sort_key)
  ultimately show "sorted_wrt (<) (map rbw_key (report_rbw_order ?xs))"
    by (simp add: report_rbw_order_def strict_sorted_iff)
qed

lemmas reg_eval = analyze_registers_def reg_run_def reg_init_def reg_step_def direct_step_def
  indexed_step_def Let_def ev_def

theorem device_controlled_iff_witness:
  "(\<exists>r \<in> set (dc_records Direct [ev ''Read'' 8 1, ev ''Write'' 12 5, ev ''Read'' 8 2]).
      dc_key r = 8 \<and> old_value r = Some 1 \<and> new_value r = 2) \<and>
   (\<exists>i j. i < j \<and> reads_key Direct [ev ''Read'' 8 1, ev ''Write'' 12 5, ev ''Read'' 8 2] i 8 1 \<and>
      reads_key Direct [ev ''Read'' 8 1, ev ''Write'' 12 5, ev ''Read'' 8 2] j 8 2 \<and>
      (1::int) \<noteq> 2 \<and>
      (\<forall>m. i < m \<and> m < j \<longrightarrow>
         untouched Direct [ev ''Read'' 8 1, ev ''Write'' 12 5, ev ''Read'' 8 2] m 8))"
proof -
  let ?es = "[ev ''Read'' 8 1, ev ''Write'' 12 5, ev ''Read'' 8 2]"
  have l: "\<exists>r \<in> set (dc_records Direct ?es). dc_key r = 8 \<and> old_value r = Some 1 \<and> new_value r = 2"
    by (simp add: reg_eval)
  with device_controlled_iff[of Direct ?es 8 1 2] show ?thesis by blast
qed

theorem read_before_write_iff_witness:
  "(\<exists>r \<in> set (rbw_records Direct [ev ''Read'' 8 1, ev ''Write'' 8 2, ev ''Read'' 8 3]).
      rbw_key r = 8) \<and>
   (\<exists>i v. first_read_at Direct [ev ''Read'' 8 1, ev ''Write'' 8 2, ev ''Read'' 8 3] i 8 v \<and>
      ((\<exists>w. first_write_at Direct [ev ''Read'' 8 1, ev ''Write'' 8 2, ev ''Read'' 8 3] w 8 \<and> i < w) \<or>
       (\<forall>w. \<not> writes_key Direct [ev ''Read'' 8 1, ev ''Write'' 8 2, ev ''Read'' 8 3] w 8))) \<and>
   first_read_at Direct [ev ''Read'' 8 1, ev ''Write'' 8 2, ev ''Read'' 8 3] 0 8 1"
proof -
  let ?es = "[ev ''Read'' 8 1, ev ''Write'' 8 2, ev ''Read'' 8 3]"
  let ?r = "\<lparr>rbw_key = 8, rbw_value = 1, rbw_line = 0\<rparr>"
  have m: "?r \<in> set (rbw_records Direct ?es)"
    by (simp add: reg_eval)
  then have l: "\<exists>r \<in> set (rbw_records Direct ?es). rbw_key r = 8" by force
  note t = read_before_write_iff[of Direct ?es 8]
  from t m have "first_read_at Direct ?es (rbw_line ?r) (rbw_key ?r) (rbw_value ?r)" by blast
  then have f: "first_read_at Direct ?es 0 8 1" by simp
  from t l f show ?thesis by blast
qed

theorem flag_false_has_last_read_witness:
  "state_table Direct (reg_run (take 2 [ev ''Read'' 8 1, ev ''Read'' 8 2])) 8 =
     Some \<lparr>last_read = Some 2, write_since_read = False\<rparr> \<and>
   last_read \<lparr>last_read = Some 2, write_since_read = False\<rparr> \<noteq> None \<and>
   \<lparr>dc_key = 8, old_value = Some 1, new_value = 2, dc_line = 1\<rparr>
     \<in> set (dc_records Direct [ev ''Read'' 8 1, ev ''Read'' 8 2]) \<and>
   old_value \<lparr>dc_key = 8, old_value = Some 1, new_value = 2, dc_line = 1\<rparr> \<noteq> None"
proof -
  let ?es = "[ev ''Read'' 8 1, ev ''Read'' 8 2]"
  let ?st = "\<lparr>last_read = Some 2, write_since_read = False\<rparr>"
  let ?r = "\<lparr>dc_key = 8, old_value = Some 1, new_value = 2, dc_line = 1\<rparr>"
  have s: "state_table Direct (reg_run (take 2 ?es)) 8 = Some ?st"
    by (simp add: reg_eval)
  have f: "\<not> write_since_read ?st" by simp
  have m: "?r \<in> set (dc_records Direct ?es)"
    by (simp add: reg_eval)
  note t = flag_false_has_last_read[of Direct 2 ?es]
  from t s f have a: "last_read ?st \<noteq> None" by blast
  from t m have b: "old_value ?r \<noteq> None" by blast
  from s a m b show ?thesis by blast
qed

section \<open>The normalizer\<close>

lemma parse_loop_map_filter:
  "parse_loop lines entries = entries @ List.map_filter parse_line lines"
  by (induction lines arbitrary: entries) (simp_all split: option.splits)

lemma split_ws_fields:
  assumes "\<forall>c \<in> set cur. \<not> py_isspace c" and "t \<in> set (split_ws cur s)"
  shows "t \<noteq> [] \<and> (\<forall>c \<in> set t. \<not> py_isspace c)"
  using assms
proof (induction s arbitrary: cur)
  case Nil
  then show ?case by (cases "cur = []") simp_all
next
  case (Cons c cs)
  show ?case
  proof (cases "py_isspace c")
    case True
    have e: "\<forall>c \<in> set ([]::string). \<not> py_isspace c" by simp
    show ?thesis
    proof (cases "cur = []")
      case True
      with \<open>py_isspace c\<close> Cons.prems(2) have "t \<in> set (split_ws [] cs)" by simp
      with e show ?thesis by (rule Cons.IH)
    next
      case False
      with \<open>py_isspace c\<close> Cons.prems(2) have "t = cur \<or> t \<in> set (split_ws [] cs)" by simp
      then show ?thesis
      proof
        assume "t = cur"
        with False Cons.prems(1) show ?thesis by simp
      next
        assume "t \<in> set (split_ws [] cs)"
        with e show ?thesis by (rule Cons.IH)
      qed
    qed
  next
    case False
    with Cons.prems(1) have a: "\<forall>x \<in> set (cur @ [c]). \<not> py_isspace x" by simp
    from False Cons.prems(2) have "t \<in> set (split_ws (cur @ [c]) cs)" by simp
    with a show ?thesis by (rule Cons.IH)
  qed
qed

lemma py_split_fields:
  "t \<in> set (py_split s) \<Longrightarrow> t \<noteq> [] \<and> (\<forall>c \<in> set t. \<not> py_isspace c)"
  unfolding py_split_def using split_ws_fields[of "[]" t s] by simp

lemma parse_line_Some:
  assumes "parse_line line = Some e"
  shows "length (py_split line) \<ge> 4 \<and> e_op e = py_split line ! 0 \<and>
         py_int16 (py_split line ! 1) = Some (e_offset e) \<and>
         py_int16 (py_split line ! 2) = Some (e_value e) \<and>
         py_int16 (py_split line ! 3) = Some (e_length e)"
  using assms by (auto simp: parse_line_def Let_def split: if_splits option.splits)

lemma parse_line_op:
  assumes "parse_line line = Some e"
  shows "e_op e \<noteq> [] \<and> (\<forall>c \<in> set (e_op e). \<not> py_isspace c)"
proof -
  from parse_line_Some[OF assms] have "e_op e \<in> set (py_split line)"
    by (metis nth_mem less_le_trans zero_less_numeral)
  then show ?thesis by (rule py_split_fields)
qed

text \<open>Claim C7 as stated fails: \<open>parse_log\<close> copies the first field of a line into the
  event without looking at it, so the line \<open>Foo 0x0 0x1 0x4\<close> yields an event whose
  operation is \<open>Foo\<close>, neither \<open>Read\<close> nor \<open>Write\<close>. A line with a fifth field is
  kept as well, the extra field ignored.\<close>

theorem parse_log_unchecked_operation:
  "parse_log ''Foo 0x0 0x1 0x4'' =
     [\<lparr>e_op = ''Foo'', e_offset = 0, e_value = 1, e_length = 4\<rparr>] \<and>
   ''Foo'' \<noteq> ''Read'' \<and> ''Foo'' \<noteq> ''Write'' \<and>
   parse_log ''Write 0xC 0x1 0x4 junk'' =
     [\<lparr>e_op = ''Write'', e_offset = 12, e_value = 1, e_length = 4\<rparr>]"
  by (simp add: parse_log_def py_strip_def py_isspace_def parse_line_def py_split_def
      py_int16_def hexval_def)

text \<open>Claim C7, amended: for every input text \<open>parse_log\<close> returns (it has no failing
  branch) the events of the accepted lines in line order, at most one per line; a line
  with fewer than four fields, or whose second, third or fourth field is not a
  hexadecimal literal, yields no event; and the operation of every emitted event is the
  first field of its line as written, a non-empty word without whitespace, which need not
  be \<open>Read\<close> or \<open>Write\<close>.\<close>

theorem parse_log_skips_in_order:
  "parse_log log_text = List.map_filter parse_line (split_nl (py_strip log_text)) \<and>
   (\<forall>line. length (py_split line) < 4 \<or> py_int16 (py_split line ! 1) = None \<or>
       py_int16 (py_split line ! 2) = None \<or> py_int16 (py_split line ! 3) = None
       \<longrightarrow> parse_line line = None) \<and>
   (\<forall>e \<in> set (parse_log log_text).
      e_op e \<noteq> [] \<and> (\<forall>c \<in> set (e_op e). \<not> py_isspace c) \<and>
      (\<exists>line \<in> set (split_nl (py_strip log_text)).
         length (py_split line) \<ge> 4 \<and> e_op e = py_split line ! 0 \<and>
         py_int16 (py_split line ! 1) = Some (e_offset e) \<and>
         py_int16 (py_split line ! 2) = Some (e_value e) \<and>
         py_int16 (py_split line ! 3) = Some (e_length e)))"
proof (intro conjI)
  show eq: "parse_log log_text = List.map_filter parse_line (split_nl (py_strip log_text))"
    by (simp add: parse_log_def parse_loop_map_filter)
  show "\<forall>line. length (py_split line) < 4 \<or> py_int16 (py_split line ! 1) = None \<or>
       py_int16 (py_split line ! 2) = None \<or> py_int16 (py_split line ! 3) = None
       \<longrightarrow> parse_line line = None"
    by (auto simp: parse_line_def Let_def split: option.splits)
  show "\<forall>e \<in> set (parse_log log_text).
      e_op e \<noteq> [] \<and> (\<forall>c \<in> set (e_op e). \<not> py_isspace c) \<and>
      (\<exists>line \<in> set (split_nl (py_strip log_text)).
         length (py_split line) \<ge> 4 \<and> e_op e = py_split line ! 0 \<and>
         py_int16 (py_split line ! 1) = Some (e_offset e) \<and>
         py_int16 (py_split line ! 2) = Some (e_value e) \<and>
         py_int16 (py_split line ! 3) = Some (e_length e))"
  proof
    fix e assume "e \<in> set (parse_log log_text)"
    then obtain line where l: "line \<in> set (split_nl (py_strip log_text))"
      and p: "parse_line line = Some e"
      unfolding eq by (auto simp: List.map_filter_def)
    from parse_line_op[OF p] parse_line_Some[OF p] l
    show "e_op e \<noteq> [] \<and> (\<forall>c \<in> set (e_op e). \<not> py_isspace c) \<and>
      (\<exists>line \<in> set (split_nl (py_strip log_text)).
         length (py_split line) \<ge> 4 \<and> e_op e = py_split line ! 0 \<and>
         py_int16 (py_split line ! 1) = Some (e_offset e) \<and>
         py_int16 (py_split line ! 2) = Some (e_value e) \<and>
         py_int16 (py_split line ! 3) = Some (e_length e))"
      by blast
  qed
qed


theorem parse_log_skips_in_order_witness:
  "parse_log (''Read 0x8 0x1 0x4'' @ [CHR 0x0A] @ ''Read 0x8 zz 0x4'' @ [CHR 0x0A] @
              ''short line'' @ [CHR 0x0A] @ ''Write 0xC 0x2 0x4'') =
     [ev ''Read'' 8 1, ev ''Write'' 12 2] \<and>
   parse_line ''Read 0x8 zz 0x4'' = None \<and> parse_line ''short line'' = None \<and>
   e_op (ev ''Write'' 12 2) \<noteq> []"
proof -
  let ?t = "''Read 0x8 0x1 0x4'' @ [CHR 0x0A] @ ''Read 0x8 zz 0x4'' @ [CHR 0x0A] @
              ''short line'' @ [CHR 0x0A] @ ''Write 0xC 0x2 0x4''"
  note t = parse_log_skips_in_order[of ?t]
  have s: "split_nl (py_strip ?t) =
      [''Read 0x8 0x1 0x4'', ''Read 0x8 zz 0x4'', ''short line'', ''Write 0xC 0x2 0x4'']"
    by (simp add: py_strip_def py_isspace_def)
  have a: "length (py_split ''short line'') < 4"
    by (simp add: py_split_def py_isspace_def)
  have b: "py_int16 (py_split ''Read 0x8 zz 0x4'' ! 2) = None"
    by (simp add: py_split_def py_isspace_def py_int16_def hexval_def)
  from t a have a': "parse_line ''short line'' = None" by blast
  from t b have b': "parse_line ''Read 0x8 zz 0x4'' = None" by blast
  have c: "parse_line ''Read 0x8 0x1 0x4'' = Some (ev ''Read'' 8 1)"
    by (simp add: parse_line_def py_strip_def py_split_def py_isspace_def py_int16_def
        hexval_def ev_def)
  have d: "parse_line ''Write 0xC 0x2 0x4'' = Some (ev ''Write'' 12 2)"
    by (simp add: parse_line_def py_strip_def py_split_def py_isspace_def py_int16_def
        hexval_def ev_def)
  from t have "parse_log ?t = List.map_filter parse_line (split_nl (py_strip ?t))" by blast
  then have e: "parse_log ?t = [ev ''Read'' 8 1, ev ''Write'' 12 2]"
    unfolding s by (simp add: a' b' c d)
  then have "ev ''Write'' 12 2 \<in> set (parse_log ?t)" by simp
  with t have "e_op (ev ''Write'' 12 2) \<noteq> []" by blast
  with e a' b' show ?thesis by blast
qed

end
